theory Spec2Isabelle
  imports Main "HOL-Library.Sublist" "HOL-Library.Word"
begin

unbundle bit_operations_syntax

section \<open>Go library functions used by the client and the daemon\<close>

text \<open>
  Go strings are byte sequences, modelled as \<^typ>\<open>string\<close>.  The functions of Go's
  \<^verbatim>\<open>strings\<close> package that \<^verbatim>\<open>xlxc/list.go\<close> calls are
  written out as recursive functions that follow the library's search loops; the separator
  of \<^verbatim>\<open>Split\<close> and \<^verbatim>\<open>SplitN\<close> is a single byte at every
  call site (\<^verbatim>\<open>"."\<close> and \<^verbatim>\<open>"="\<close>).
\<close>

fun HasPrefix :: "string \<Rightarrow> string \<Rightarrow> bool" where
  "HasPrefix s [] = True"
| "HasPrefix [] (p # ps) = False"
| "HasPrefix (c # cs) (p # ps) = (c = p \<and> HasPrefix cs ps)"


text \<open>
  \<^verbatim>\<open>strings.SplitN(s, sep, n)\<close> for \<open>n \<ge> 0\<close>: no piece for \<open>n = 0\<close>,
  otherwise at most \<open>n\<close> pieces, the last one being the unsplit rest.
\<close>

fun SplitN :: "string \<Rightarrow> char \<Rightarrow> nat \<Rightarrow> string list" where
  "SplitN s sep 0 = []"
| "SplitN s sep (Suc 0) = [s]"
| "SplitN s sep (Suc (Suc n)) =
     (case dropWhile (\<lambda>c. c \<noteq> sep) s of
        [] \<Rightarrow> [s]
      | _ # rest \<Rightarrow> takeWhile (\<lambda>c. c \<noteq> sep) s # SplitN rest sep (Suc n))"

text \<open>
  \<^verbatim>\<open>strings.Split(s, sep)\<close> is \<^verbatim>\<open>SplitN\<close> with as many pieces as
  there are separators, plus one; a string of \<open>k\<close> bytes has at most \<open>k\<close> separators.
\<close>

definition Split :: "string \<Rightarrow> char \<Rightarrow> string list" where
  "Split s sep = SplitN s sep (Suc (length s))"

section \<open>The client's container list: \<^verbatim>\<open>xlxc/list.go\<close>\<close>


text \<open>
  Go leaves the order in which \<^verbatim>\<open>range\<close> visits a map unspecified, and it may
  differ from one loop to the next.  A traversal of a map is a list of its entries, each key
  once.
\<close>

type_synonym traversal = "(string \<times> string) list"

definition traverses :: "traversal \<Rightarrow> (string \<rightharpoonup> string) \<Rightarrow> bool" where
  "traverses es m = (distinct (map fst es) \<and> map_of es = m)"

definition dotPrefixMatch :: "string \<Rightarrow> string \<Rightarrow> bool" where
  "dotPrefixMatch short full =
     (let fullMembs = Split full (CHR ''.'');
          shortMembs = Split short (CHR ''.'')
      in if length fullMembs \<noteq> length shortMembs then False
         else list_all (\<lambda>(f, s). HasPrefix f s) (zip fullMembs shortMembs))"

text \<open>
  The inner loop of \<^verbatim>\<open>shouldShow\<close> over \<^verbatim>\<open>state.Config\<close> ends in one
  of three ways: \<^verbatim>\<open>found = true; break\<close>, the early \<^verbatim>\<open>return false\<close>
  at a matching key with another value, or the end of the map with \<^verbatim>\<open>found\<close> still
  false.
\<close>

datatype lookup = KeyFound | KeyMismatch | KeyAbsent

fun rangeConfig :: "string \<Rightarrow> string \<Rightarrow> traversal \<Rightarrow> lookup" where
  "rangeConfig key val [] = KeyAbsent"
| "rangeConfig key val ((configKey, configValue) # rest) =
     (if dotPrefixMatch key configKey
      then (if val = configValue then KeyFound else KeyMismatch)
      else rangeConfig key val rest)"





section \<open>The daemon's API root: \<^verbatim>\<open>api10Get\<close>\<close>

text \<open>
  A Go \<^verbatim>\<open>error\<close> is modelled by its message.  \<^verbatim>\<open>shared.Jmap\<close> is
  \<^verbatim>\<open>map[string]interface{}\<close>; the values \<^verbatim>\<open>api10Get\<close> stores in one are
  strings, integers, booleans, slices of strings or integers, and nested maps.
\<close>

type_synonym error = string

datatype jval =
    JString string
  | JInt int
  | JBool bool
  | JStrings "string list"
  | JInts "int list"
  | JObject "string \<Rightarrow> jval option"

type_synonym Jmap = "string \<rightharpoonup> jval"

text \<open>
  The responses \<^verbatim>\<open>api10Get\<close> builds: \<^verbatim>\<open>SyncResponse(success, metadata)\<close>
  and \<^verbatim>\<open>InternalError(err)\<close>.
\<close>

datatype Response =
    SyncResponse bool Jmap
  | InternalError error

text \<open>
  \<^verbatim>\<open>syscall.Utsname\<close>: arrays of 65 \<^verbatim>\<open>int8\<close>, of which the handler reads
  three.  \<^verbatim>\<open>linuxproc.CPUInfo\<close> and \<^verbatim>\<open>linuxproc.MemInfo\<close> are represented
  by what the handler takes from them.
\<close>

record Utsname =
  Sysname :: "8 word list"
  Release :: "8 word list"
  Machine :: "8 word list"

record CPUInfo =
  NumPhysicalCPU :: int
  NumCore :: int

record MemInfo =
  MemTotal :: "64 word"

text \<open>
  What the handler obtains from outside the daemon value: the package constants
  \<^verbatim>\<open>shared.APICompat\<close> and \<^verbatim>\<open>shared.Version\<close>, and the results of
  \<^verbatim>\<open>syscall.Uname\<close>, \<^verbatim>\<open>linuxproc.ReadCPUInfo\<close>,
  \<^verbatim>\<open>linuxproc.ReadMemInfo\<close>, \<^verbatim>\<open>lxc.Version\<close> and
  \<^verbatim>\<open>os.Getpid\<close>.
\<close>

record Shared =
  APICompat :: int
  Version :: string

record Host =
  Uname :: "error + Utsname"
  ReadCPUInfo :: "error + CPUInfo"
  ReadMemInfo :: "error + MemInfo"
  lxcVersion :: string
  Getpid :: int

text \<open>
  What the handler reads of the \<^verbatim>\<open>Daemon\<close>: the verdict of
  \<^verbatim>\<open>isTrustedClient\<close> on a request (of any type \<open>'r\<close>), the results of
  \<^verbatim>\<open>ListenAddresses\<close> and \<^verbatim>\<open>ConfigValuesGet\<close>, the field
  \<^verbatim>\<open>architectures\<close> and the storage driver's name and version.  The server
  configuration is a Go map from strings to strings, given as the traversal that the
  handler's \<^verbatim>\<open>range\<close> yields.
\<close>

record 'r Daemon =
  isTrustedClient :: "'r \<Rightarrow> bool"
  ListenAddresses :: "error + string list"
  architectures :: "int list"
  GetStorageTypeName :: string
  GetStorageTypeVersion :: string
  ConfigValuesGet :: "error + traversal"

text \<open>
  \<^verbatim>\<open>string(byte(c))\<close> converts an integer to a string: the UTF-8 encoding of the code
  point \<open>c\<close>, one byte below \<open>0x80\<close> and two bytes from there to \<open>0xFF\<close>.
\<close>

definition byteString :: "8 word \<Rightarrow> string" where
  "byteString c =
     (if c < 0x80 then [char_of (unat c)]
      else [char_of (unat (0xC0 OR drop_bit 6 c)), char_of (unat (0x80 OR (c AND 0x3F)))])"

text \<open>
  The three loops over \<^verbatim>\<open>uname.Sysname\<close>, \<^verbatim>\<open>uname.Release\<close> and
  \<^verbatim>\<open>uname.Machine\<close>: append the bytes up to the first zero.
\<close>

fun cstring :: "8 word list \<Rightarrow> string" where
  "cstring [] = []"
| "cstring (c # cs) = (if c = 0 then [] else byteString c @ cstring cs)"

text \<open>\<^verbatim>\<open>strconv.Itoa\<close>: the decimal digits, with a minus sign below zero.\<close>

fun digits :: "nat \<Rightarrow> string" where
  "digits n =
     (if n < 10 then [char_of (48 + n)]
      else digits (n div 10) @ [char_of (48 + n mod 10)])"

declare digits.simps [simp del]

definition Itoa :: "int \<Rightarrow> string" where
  "Itoa i = (if i < 0 then CHR ''-'' # digits (nat (- i)) else digits (nat i))"

text \<open>
  The loop \<^verbatim>\<open>for key, value := range serverConfig\<close> of \<^verbatim>\<open>api10Get\<close>,
  which fills \<^verbatim>\<open>config\<close>.
\<close>

fun rangeServerConfig :: "traversal \<Rightarrow> Jmap \<Rightarrow> Jmap" where
  "rangeServerConfig [] config = config"
| "rangeServerConfig ((key, val) # rest) config =
     rangeServerConfig rest
       (if key = ''core.trust_password'' then config(key \<mapsto> JBool True)
        else config(key \<mapsto> JString val))"

definition api10Get :: "Shared \<Rightarrow> Host \<Rightarrow> 'r Daemon \<Rightarrow> 'r \<Rightarrow> Response" where
  "api10Get sh h d r =
     (let body = [''api_compat'' \<mapsto> JInt (APICompat sh)] in
      if isTrustedClient d r then
        (let body = body(''auth'' \<mapsto> JString ''trusted'') in
         case Uname h of Inl err \<Rightarrow> InternalError err | Inr uname \<Rightarrow>
         (let kernel = cstring (Sysname uname);
              kernelVersion = cstring (Release uname);
              kernelArchitecture = cstring (Machine uname) in
          case ListenAddresses d of Inl err \<Rightarrow> InternalError err | Inr addresses \<Rightarrow>
          (case ReadCPUInfo h of Inl err \<Rightarrow> InternalError err | Inr cpuinfo \<Rightarrow>
          (case ReadMemInfo h of Inl err \<Rightarrow> InternalError err | Inr meminfo \<Rightarrow>
          (let env = [''addresses'' \<mapsto> JStrings addresses,
                      ''architectures'' \<mapsto> JInts (architectures d),
                      ''driver'' \<mapsto> JString ''lxc'',
                      ''driver_version'' \<mapsto> JString (lxcVersion h),
                      ''kernel'' \<mapsto> JString kernel,
                      ''kernel_architecture'' \<mapsto> JString kernelArchitecture,
                      ''kernel_version'' \<mapsto> JString kernelVersion,
                      ''storage'' \<mapsto> JString (GetStorageTypeName d),
                      ''storage_version'' \<mapsto> JString (GetStorageTypeVersion d),
                      ''server'' \<mapsto> JString ''lxd'',
                      ''server_pid'' \<mapsto> JInt (Getpid h),
                      ''server_version'' \<mapsto> JString (Version sh),
                      ''processors'' \<mapsto> JString (Itoa (NumPhysicalCPU cpuinfo)),
                      ''cores'' \<mapsto> JString (Itoa (NumCore cpuinfo)),
                      ''memory'' \<mapsto> JString (Itoa (sint (MemTotal meminfo)))];
                body = body(''environment'' \<mapsto> JObject env) in
           case ConfigValuesGet d of Inl err \<Rightarrow> InternalError err | Inr serverConfig \<Rightarrow>
           (let config = rangeServerConfig serverConfig Map.empty;
                body = body(''config'' \<mapsto> JObject config)
            in SyncResponse True body))))))
      else SyncResponse True (body(''auth'' \<mapsto> JString ''untrusted'')))"

section \<open>The operation engine and the session bridge\<close>

text \<open>
  The daemon's operation registry, its engine and the WebSocket session bridge are reached
  from the sources at hand only through their callers (\<^verbatim>\<open>operationsCmd\<close>,
  \<^verbatim>\<open>operationWait\<close>, \<^verbatim>\<open>operationWebsocket\<close> in the command table,
  \<^verbatim>\<open>WaitForSuccess\<close> in the client).  The definitions of this section follow the
  specification's sections 3, 4.1 and 4.3.
\<close>

text \<open>Modelled from the spec: the \<^verbatim>\<open>status\<close> values of an Operation Record
  (section 3); the record's code is not among the sources.\<close>

datatype op_status = Pending | Running | Success | Failure | Cancelled

text \<open>Modelled from the spec: the glossary's terminal states, \<^verbatim>\<open>Success\<close>,
  \<^verbatim>\<open>Failure\<close> or \<^verbatim>\<open>Cancelled\<close>.\<close>

definition terminal :: "op_status \<Rightarrow> bool" where
  "terminal s = (s = Success \<or> s = Failure \<or> s = Cancelled)"

text \<open>Modelled from the spec: the error taxonomy of section 7.\<close>

datatype engine_error =
    InvalidResource | NotFound | NotCancelable | Overloaded
  | Timeout | InvalidSecret | OperationNotRunning | InternalFault

text \<open>Modelled from the spec: the Operation Record of section 3.  The identifier is a
  number drawn from the registry's counter, timestamps are clock readings.\<close>

record OperationRecord =
  op_id :: nat
  status :: op_status
  createdAt :: nat
  updatedAt :: nat
  resources :: "(string \<times> string list) list"
  metadata :: "(string \<times> string) list"
  mayCancel :: bool
  err :: "string option"

text \<open>Modelled from the spec: a WebSocket Secret Binding of section 3, stored under the
  key (operation, secret) as section 4.3 says, with the stream name it unlocks.  A secret
  is a single-use random token; it is modelled as a number that is minted once.\<close>

type_synonym binding = "(nat \<times> nat) \<times> string"

text \<open>Modelled from the spec: the process-wide store of section 9, holding the registry
  (records in creation order), the next identifier (an identifier is never reused), the
  retention window of the reaping policy, the bridge's secret bindings and the next token
  to mint.\<close>

record Engine =
  registry :: "OperationRecord list"
  nextId :: nat
  retention :: nat
  secrets :: "binding list"
  nextSecret :: nat

text \<open>Modelled from the spec: the store at daemon start, with no operation and no
  secret.\<close>

definition newEngine :: "nat \<Rightarrow> Engine" where
  "newEngine window =
     \<lparr>registry = [], nextId = 0, retention = window, secrets = [], nextSecret = 0\<rparr>"

text \<open>Modelled from the spec: lookup of a record by identifier (the registry is keyed by
  \<^verbatim>\<open>id\<close>).\<close>

definition find_op :: "nat \<Rightarrow> Engine \<Rightarrow> OperationRecord option" where
  "find_op i e = find (\<lambda>op. op_id op = i) (registry e)"

text \<open>Modelled from the spec: \<^verbatim>\<open>Get(id)\<close>, a snapshot read that fails with
  \<^verbatim>\<open>NotFound\<close> for an unknown or reaped identifier.\<close>

definition Get :: "nat \<Rightarrow> Engine \<Rightarrow> engine_error + OperationRecord" where
  "Get i e = (case find_op i e of None \<Rightarrow> Inl NotFound | Some op \<Rightarrow> Inr op)"

text \<open>Modelled from the spec: a mutation of the record with a given identifier; every
  status or metadata change advances \<^verbatim>\<open>updatedAt\<close>.\<close>

definition update_op :: "nat \<Rightarrow> nat \<Rightarrow> (OperationRecord \<Rightarrow> OperationRecord) \<Rightarrow> Engine \<Rightarrow> Engine" where
  "update_op now i f e =
     e\<lparr>registry :=
         map (\<lambda>op. if op_id op = i then (f op)\<lparr>updatedAt := now\<rparr> else op) (registry e)\<rparr>"

text \<open>Modelled from the spec: when an operation reaches a terminal state, or is deleted,
  the bridge discards the secrets bound to it (sections 3 and 4.3).\<close>

definition discard_secrets :: "nat \<Rightarrow> Engine \<Rightarrow> Engine" where
  "discard_secrets i e = e\<lparr>secrets := filter (\<lambda>b. fst (fst b) \<noteq> i) (secrets e)\<rparr>"

text \<open>Modelled from the spec: \<^verbatim>\<open>Create(resources, workFn, cancelFn?)\<close> of section
  4.1.  The admission path's verdict (\<^verbatim>\<open>InvalidResource\<close> for a conflicting
  exclusive claim, \<^verbatim>\<open>Overloaded\<close> above the concurrency cap) is an argument; an
  admitted call stores a \<^verbatim>\<open>Pending\<close> record under a fresh identifier.\<close>

definition Create ::
  "nat \<Rightarrow> (string \<times> string list) list \<Rightarrow> bool \<Rightarrow> engine_error option \<Rightarrow> Engine
     \<Rightarrow> engine_error + OperationRecord \<times> Engine" where
  "Create now res cancellable verdict e =
     (case verdict of
        Some refusal \<Rightarrow> Inl refusal
      | None \<Rightarrow>
          (let op = \<lparr>op_id = nextId e, status = Pending, createdAt = now, updatedAt = now,
                      resources = res, metadata = [], mayCancel = cancellable, err = None\<rparr>
           in Inr (op, e\<lparr>registry := registry e @ [op], nextId := Suc (nextId e)\<rparr>)))"

text \<open>Modelled from the spec: \<^verbatim>\<open>Start(id)\<close> of section 4.1, the transition
  \<^verbatim>\<open>Pending -> Running\<close>.  The work function runs exactly once, so a record that is
  no longer pending is left as it is.\<close>

definition Start :: "nat \<Rightarrow> nat \<Rightarrow> Engine \<Rightarrow> engine_error + Engine" where
  "Start now i e =
     (case find_op i e of
        None \<Rightarrow> Inl NotFound
      | Some op \<Rightarrow>
          if status op = Pending then Inr (update_op now i (\<lambda>op. op\<lparr>status := Running\<rparr>) e)
          else Inr e)"

text \<open>Modelled from the spec: what a work function's single invocation ends in, a return
  of \<^verbatim>\<open>(metadata, error)\<close> or a panic.\<close>

datatype work_outcome =
    Returned "(string \<times> string) list" "string option"
  | Panicked

text \<open>Modelled from the spec: the engine boundary of section 4.1 at the end of the work
  function.  A nil error gives \<^verbatim>\<open>Success\<close>, an error \<^verbatim>\<open>Failure\<close> with
  that cause, a panic \<^verbatim>\<open>Failure\<close> with an internal-error cause.  A record that is
  not running (force-marked cancelled, section 5) no longer relies on the outcome.\<close>

definition WorkDone :: "nat \<Rightarrow> nat \<Rightarrow> work_outcome \<Rightarrow> Engine \<Rightarrow> Engine" where
  "WorkDone now i outcome e =
     (case find_op i e of
        None \<Rightarrow> e
      | Some op \<Rightarrow>
          if status op = Running then
            discard_secrets i
              (case outcome of
                 Returned md None \<Rightarrow>
                   update_op now i (\<lambda>op. op\<lparr>status := Success, metadata := md\<rparr>) e
               | Returned md (Some cause) \<Rightarrow>
                   update_op now i (\<lambda>op. op\<lparr>status := Failure, err := Some cause\<rparr>) e
               | Panicked \<Rightarrow>
                   update_op now i
                     (\<lambda>op. op\<lparr>status := Failure, err := Some ''internal error''\<rparr>) e)
          else e)"

text \<open>Modelled from the spec: how the work function reacts to \<^verbatim>\<open>cancelFn\<close> within
  the grace period: it stops, it fails instead, or it does not return in time.\<close>

datatype cancel_reaction = Stopped | FailedInstead string | GraceExpired

text \<open>Modelled from the spec: \<^verbatim>\<open>Cancel(id)\<close> of section 4.1, valid only if
  \<^verbatim>\<open>mayCancel\<close> and the status is \<^verbatim>\<open>Pending\<close> or \<^verbatim>\<open>Running\<close>;
  the record becomes \<^verbatim>\<open>Cancelled\<close>, or \<^verbatim>\<open>Failure\<close> if the work function
  failed instead, and is force-marked \<^verbatim>\<open>Cancelled\<close> after the hard timeout
  (section 5).  Otherwise the call fails with \<^verbatim>\<open>NotCancelable\<close>.\<close>

definition Cancel :: "nat \<Rightarrow> nat \<Rightarrow> cancel_reaction \<Rightarrow> Engine \<Rightarrow> engine_error + Engine" where
  "Cancel now i reaction e =
     (case find_op i e of
        None \<Rightarrow> Inl NotFound
      | Some op \<Rightarrow>
          if mayCancel op \<and> (status op = Pending \<or> status op = Running) then
            Inr (discard_secrets i
              (case reaction of
                 Stopped \<Rightarrow> update_op now i (\<lambda>op. op\<lparr>status := Cancelled\<rparr>) e
               | FailedInstead cause \<Rightarrow>
                   update_op now i (\<lambda>op. op\<lparr>status := Failure, err := Some cause\<rparr>) e
               | GraceExpired \<Rightarrow> update_op now i (\<lambda>op. op\<lparr>status := Cancelled\<rparr>) e))
          else Inl NotCancelable)"

text \<open>Modelled from the spec: \<^verbatim>\<open>Delete(id)\<close> of section 4.1, allowed only in a
  terminal state; it removes the record and its secrets.  The spec names no error for a
  refused deletion of a live record: \<open>None\<close> stands for it.\<close>

definition Delete :: "nat \<Rightarrow> Engine \<Rightarrow> engine_error + Engine option" where
  "Delete i e =
     (case find_op i e of
        None \<Rightarrow> Inl NotFound
      | Some op \<Rightarrow>
          if terminal (status op) then
            Inr (Some (discard_secrets i
              (e\<lparr>registry := filter (\<lambda>op. op_id op \<noteq> i) (registry e)\<rparr>)))
          else Inr None)"

text \<open>Modelled from the spec: the reaping policy of section 4.1.  The periodic sweep
  collects the terminal records whose retention window has passed.\<close>

definition Sweep :: "nat \<Rightarrow> Engine \<Rightarrow> Engine" where
  "Sweep now e =
     e\<lparr>registry :=
         filter (\<lambda>op. \<not> (terminal (status op) \<and> updatedAt op + retention e \<le> now))
           (registry e)\<rparr>"

text \<open>Modelled from the spec: \<^verbatim>\<open>RegisterSecret(operationId, streamNames)\<close> of
  section 4.3.  Each stream name gets a token of its own that was never minted before; the
  result maps stream names to secrets, and the bindings are stored under
  (operation, secret).\<close>

definition RegisterSecret ::
  "nat \<Rightarrow> string list \<Rightarrow> Engine \<Rightarrow> (string \<times> nat) list \<times> Engine" where
  "RegisterSecret i streamNames e =
     (let tokens = [nextSecret e ..< nextSecret e + length streamNames];
          mapping = zip streamNames tokens
      in (mapping,
          e\<lparr>secrets := secrets e @ map (\<lambda>(stream, tok). ((i, tok), stream)) mapping,
            nextSecret := nextSecret e + length streamNames\<rparr>))"

text \<open>Modelled from the spec: \<^verbatim>\<open>Upgrade(secret, rawConnection)\<close> of section 4.3.
  An unknown or consumed secret fails with \<^verbatim>\<open>InvalidSecret\<close>, a secret of a
  terminal operation with \<^verbatim>\<open>OperationNotRunning\<close>; a successful upgrade consumes
  (deletes) the binding and returns the operation and stream it is bound to.  The byte
  traffic on the connection is not part of the model.\<close>

definition Upgrade :: "nat \<Rightarrow> Engine \<Rightarrow> engine_error + (nat \<times> string) \<times> Engine" where
  "Upgrade tok e =
     (case find (\<lambda>b. snd (fst b) = tok) (secrets e) of
        None \<Rightarrow> Inl InvalidSecret
      | Some ((i, s), stream) \<Rightarrow>
          (case find_op i e of
             None \<Rightarrow> Inl OperationNotRunning
           | Some op \<Rightarrow>
               if terminal (status op) then Inl OperationNotRunning
               else Inr ((i, stream),
                         e\<lparr>secrets := filter (\<lambda>b. fst b \<noteq> (i, tok)) (secrets e)\<rparr>)))"

text \<open>Modelled from the spec: the steps of the registry, the engine and the bridge, as
  calls of the operations above with their arguments.\<close>

datatype action =
    ACreate nat "(string \<times> string list) list" bool "engine_error option"
  | AStart nat nat
  | AWorkDone nat nat work_outcome
  | ACancel nat nat cancel_reaction
  | ADelete nat
  | ASweep nat
  | ARegisterSecret nat "string list"
  | AUpgrade nat

text \<open>Modelled from the spec: the store after one step; a call that fails leaves it
  unchanged (errors of the engine's API go to the caller, section 7).\<close>

fun exec :: "action \<Rightarrow> Engine \<Rightarrow> Engine" where
  "exec (ACreate now res cancellable verdict) e =
     (case Create now res cancellable verdict e of Inl _ \<Rightarrow> e | Inr (_, e') \<Rightarrow> e')"
| "exec (AStart now i) e = (case Start now i e of Inl _ \<Rightarrow> e | Inr e' \<Rightarrow> e')"
| "exec (AWorkDone now i outcome) e = WorkDone now i outcome e"
| "exec (ACancel now i reaction) e = (case Cancel now i reaction e of Inl _ \<Rightarrow> e | Inr e' \<Rightarrow> e')"
| "exec (ADelete i) e = (case Delete i e of Inr (Some e') \<Rightarrow> e' | _ \<Rightarrow> e)"
| "exec (ASweep now) e = Sweep now e"
| "exec (ARegisterSecret i streamNames) e = snd (RegisterSecret i streamNames e)"
| "exec (AUpgrade tok) e = (case Upgrade tok e of Inl _ \<Rightarrow> e | Inr (_, e') \<Rightarrow> e')"

text \<open>Modelled from the spec: a run of the engine, as the store after a sequence of steps
  and as the sequence of stores it passes through.\<close>

fun run :: "action list \<Rightarrow> Engine \<Rightarrow> Engine" where
  "run [] e = e"
| "run (a # as) e = run as (exec a e)"

fun trace :: "action list \<Rightarrow> Engine \<Rightarrow> Engine list" where
  "trace [] e = [e]"
| "trace (a # as) e = e # trace as (exec a e)"

text \<open>Modelled from the spec: the statuses an operation is observed in along a sequence
  of stores, while it has a record.\<close>

fun status_history :: "nat \<Rightarrow> Engine list \<Rightarrow> op_status list" where
  "status_history i [] = []"
| "status_history i (e # es) =
     (case find_op i e of
        None \<Rightarrow> status_history i es
      | Some op \<Rightarrow> status op # status_history i es)"

text \<open>Modelled from the spec: the bindings a secret has in the bridge's store.\<close>

definition bindings_of :: "nat \<Rightarrow> Engine \<Rightarrow> binding list" where
  "bindings_of tok e = filter (\<lambda>b. snd (fst b) = tok) (secrets e)"

subsection \<open>Notions used in the proofs\<close>

text \<open>
  One observation of a record's status to the next: it stays, it leaves
  \<^const>\<open>Pending\<close>, or it goes from \<^const>\<open>Running\<close> to a terminal state.
\<close>

definition advance :: "op_status \<Rightarrow> op_status \<Rightarrow> bool" where
  "advance s s' = (s' = s \<or> (s = Pending \<and> s' \<noteq> Pending) \<or> (s = Running \<and> terminal s'))"

text \<open>
  The registry's invariant: no two records share an identifier, and every identifier in
  use lies below the counter.
\<close>

definition fresh_ids :: "Engine \<Rightarrow> bool" where
  "fresh_ids e =
     (distinct (map op_id (registry e)) \<and>
      (\<forall>i \<in> set (map op_id (registry e)). i < nextId e))"

text \<open>
  The bridge's invariant: no two bindings share a token, and every token in use lies below
  the counter.
\<close>

definition fresh_secrets :: "Engine \<Rightarrow> bool" where
  "fresh_secrets e =
     (distinct (map (\<lambda>b. snd (fst b)) (secrets e)) \<and>
      (\<forall>t \<in> set (map (\<lambda>b. snd (fst b)) (secrets e)). t < nextSecret e))"

text \<open>What is left of the lifecycle from a status on, ending in the terminal state \<open>t\<close>.\<close>

fun remaining :: "op_status \<Rightarrow> op_status \<Rightarrow> op_status list" where
  "remaining Pending t = [Pending, Running, t]"
| "remaining Running t = [Running, t]"
| "remaining s t = [s]"

section \<open>Example inputs\<close>




definition demoShared :: Shared where
  "demoShared = \<lparr>APICompat = 1, Version = ''0.21''\<rparr>"

definition demoHost :: Host where
  "demoHost =
     \<lparr>Uname = Inr \<lparr>Sysname = [76, 105, 110, 117, 120, 0, 0],
                      Release = [52, 46, 50, 0],
                      Machine = [120, 56, 54, 0, 52]\<rparr>,
      ReadCPUInfo = Inr \<lparr>NumPhysicalCPU = 1, NumCore = 4\<rparr>,
      ReadMemInfo = Inr \<lparr>MemTotal = 64\<rparr>,
      lxcVersion = ''1.1.5'',
      Getpid = 4242\<rparr>"

definition demoConfig :: traversal where
  "demoConfig =
     [(''core.trust_password'', ''hunter2''), (''core.https_address'', ''[::]:8443'')]"

definition demoDaemon :: "string Daemon" where
  "demoDaemon =
     \<lparr>isTrustedClient = (\<lambda>r. r = ''alice''),
      ListenAddresses = Inr [''10.0.3.1:8443''],
      architectures = [2],
      GetStorageTypeName = ''dir'',
      GetStorageTypeVersion = ''1'',
      ConfigValuesGet = Inr demoConfig\<rparr>"

definition demoRun :: "action list" where
  "demoRun =
     [ACreate 1 [(''containers'', [''c1''])] True None,
      AStart 2 0,
      AWorkDone 3 0 (Returned [(''progress'', ''100'')] None)]"

definition demoLater :: "action list" where
  "demoLater = [ACancel 4 0 Stopped, AStart 5 0]"

definition demoBridge :: "action list" where
  "demoBridge =
     [ACreate 1 [(''containers'', [''c1''])] False None,
      AStart 2 0,
      ARegisterSecret 0 [''0'', ''1'']]"

definition demoSession :: "action list" where
  "demoSession = [ARegisterSecret 0 [''control''], AUpgrade 0, AWorkDone 3 0 Panicked]"

lemmas engine_defs =
  newEngine_def Create_def Start_def WorkDone_def Cancel_def Delete_def Sweep_def
  RegisterSecret_def Upgrade_def find_op_def update_op_def discard_secrets_def Let_def
  terminal_def

section \<open>Properties of the container filter\<close>











text \<open>
  A \<^verbatim>\<open>key=value\<close> filter that is found was found at a key of the configuration
  that the abbreviated key matches and that holds the value.
\<close>

lemma rangeConfig_found:
  assumes "traverses es m" and "rangeConfig key v es = KeyFound"
  shows "\<exists>configKey. dotPrefixMatch key configKey \<and> m configKey = Some v"
proof -
  have "\<exists>configKey. dotPrefixMatch key configKey \<and> (configKey, v) \<in> set es"
    using assms(2) by (induction es) (auto split: if_splits)
  with assms(1) show ?thesis
    by (auto simp: traverses_def)
qed




section \<open>Properties of the API root\<close>

lemma rangeServerConfig_eq:
  "distinct (map fst es) \<Longrightarrow>
   rangeServerConfig es config key =
     (case map_of es key of
        None \<Rightarrow> config key
      | Some v \<Rightarrow> Some (if key = ''core.trust_password'' then JBool True else JString v))"
proof (induction es arbitrary: config)
  case Nil
  show ?case by simp
next
  case (Cons e es)
  obtain k v where e: "e = (k, v)" by (cases e)
  from Cons.prems e have none: "map_of es k = None"
    by (auto simp: map_of_eq_None_iff)
  from Cons.prems have "distinct (map fst es)" by simp
  note IH = Cons.IH [OF this]
  show ?case
    unfolding e using none by (simp add: IH split: option.splits)
qed

lemma api10Get_untrusted_body:
  "\<not> isTrustedClient d r \<Longrightarrow>
   api10Get sh h d r =
     SyncResponse True [''api_compat'' \<mapsto> JInt (APICompat sh), ''auth'' \<mapsto> JString ''untrusted'']"
  by (simp add: api10Get_def)

lemma api10Get_trusted_config:
  assumes "isTrustedClient d r" and "api10Get sh h d r = SyncResponse ok body"
  shows "\<exists>es. ConfigValuesGet d = Inr es \<and>
           body ''config'' = Some (JObject (rangeServerConfig es Map.empty))"
proof -
  from assms obtain uname where u: "Uname h = Inr uname"
    by (cases "Uname h") (simp_all add: api10Get_def)
  from assms u obtain addresses where a: "ListenAddresses d = Inr addresses"
    by (cases "ListenAddresses d") (simp_all add: api10Get_def)
  from assms u a obtain cpuinfo where c: "ReadCPUInfo h = Inr cpuinfo"
    by (cases "ReadCPUInfo h") (simp_all add: api10Get_def)
  from assms u a c obtain meminfo where m: "ReadMemInfo h = Inr meminfo"
    by (cases "ReadMemInfo h") (simp_all add: api10Get_def)
  from assms u a c m obtain es where e: "ConfigValuesGet d = Inr es"
    by (cases "ConfigValuesGet d") (simp_all add: api10Get_def)
  from assms u a c m e have "body ''config'' = Some (JObject (rangeServerConfig es Map.empty))"
    by (auto simp: api10Get_def Let_def)
  with e show ?thesis by blast
qed

lemma api10Get_cong_config:
  assumes "rangeServerConfig es' Map.empty = rangeServerConfig es Map.empty"
  shows "api10Get sh h (d\<lparr>ConfigValuesGet := Inr es'\<rparr>) r =
         api10Get sh h (d\<lparr>ConfigValuesGet := Inr es\<rparr>) r"
  using assms by (simp add: api10Get_def Let_def cong: sum.case_cong)

text \<open>
  Claim C8.  To a caller that \<^verbatim>\<open>isTrustedClient\<close> does not trust,
  \<^verbatim>\<open>api10Get\<close> answers with the body
  \<^verbatim>\<open>{"api_compat": APICompat, "auth": "untrusted"}\<close> and nothing else; the answer is
  the same for any two daemons and hosts that both do not trust the request, whatever their
  configuration and environment; and a body that holds \<^verbatim>\<open>environment\<close> or
  \<^verbatim>\<open>config\<close> was built for a trusted caller.
\<close>

theorem api10Get_untrusted:
  "(\<not> isTrustedClient d r \<longrightarrow>
      api10Get sh h d r =
        SyncResponse True
          [''api_compat'' \<mapsto> JInt (APICompat sh), ''auth'' \<mapsto> JString ''untrusted'']) \<and>
   (\<not> isTrustedClient d r \<and> \<not> isTrustedClient d' r \<longrightarrow>
      api10Get sh h d r = api10Get sh h' d' r) \<and>
   (api10Get sh h d r = SyncResponse ok body \<and>
    (body ''environment'' \<noteq> None \<or> body ''config'' \<noteq> None) \<longrightarrow>
      isTrustedClient d r)"
proof (intro conjI impI)
  assume "\<not> isTrustedClient d r"
  then show "api10Get sh h d r =
    SyncResponse True
      [''api_compat'' \<mapsto> JInt (APICompat sh), ''auth'' \<mapsto> JString ''untrusted'']"
    by (rule api10Get_untrusted_body)
next
  assume "\<not> isTrustedClient d r \<and> \<not> isTrustedClient d' r"
  then show "api10Get sh h d r = api10Get sh h' d' r"
    by (simp add: api10Get_untrusted_body)
next
  assume a: "api10Get sh h d r = SyncResponse ok body \<and>
    (body ''environment'' \<noteq> None \<or> body ''config'' \<noteq> None)"
  show "isTrustedClient d r"
  proof (rule ccontr)
    assume "\<not> isTrustedClient d r"
    from api10Get_untrusted_body [OF this, of sh h] a show False
      by auto
  qed
qed

text \<open>
  C8 at the example daemon: \<^verbatim>\<open>mallory\<close> is not trusted and gets the two-key body,
  also from a daemon with another configuration on a host with another process id;
  \<^verbatim>\<open>alice\<close> gets a body with an environment, and is trusted.
\<close>

theorem api10Get_untrusted_witness:
  "\<not> isTrustedClient demoDaemon ''mallory'' \<and>
   api10Get demoShared demoHost demoDaemon ''mallory'' =
     SyncResponse True [''api_compat'' \<mapsto> JInt 1, ''auth'' \<mapsto> JString ''untrusted''] \<and>
   api10Get demoShared demoHost demoDaemon ''mallory'' =
     api10Get demoShared (demoHost\<lparr>Getpid := 7\<rparr>)
       (demoDaemon\<lparr>ConfigValuesGet := Inr []\<rparr>) ''mallory'' \<and>
   (\<exists>body. api10Get demoShared demoHost demoDaemon ''alice'' = SyncResponse True body \<and>
      body ''environment'' \<noteq> None) \<and>
   isTrustedClient demoDaemon ''alice''"
proof -
  let ?d' = "demoDaemon\<lparr>ConfigValuesGet := Inr []\<rparr>"
  note t = api10Get_untrusted
    [of demoDaemon "''mallory''" demoShared demoHost ?d' "demoHost\<lparr>Getpid := 7\<rparr>"]
  have u: "\<not> isTrustedClient demoDaemon ''mallory''"
    by (simp add: demoDaemon_def)
  have u': "\<not> isTrustedClient ?d' ''mallory''"
    by (simp add: demoDaemon_def)
  from t u have exact: "api10Get demoShared demoHost demoDaemon ''mallory'' =
     SyncResponse True [''api_compat'' \<mapsto> JInt 1, ''auth'' \<mapsto> JString ''untrusted'']"
    by (simp add: demoShared_def)
  from t u u' have same: "api10Get demoShared demoHost demoDaemon ''mallory'' =
     api10Get demoShared (demoHost\<lparr>Getpid := 7\<rparr>) ?d' ''mallory''"
    by blast
  have "\<exists>body. api10Get demoShared demoHost demoDaemon ''alice'' = SyncResponse True body \<and>
      body ''environment'' \<noteq> None"
    by (simp add: api10Get_def Let_def demoDaemon_def demoHost_def)
  then obtain body where
    b: "api10Get demoShared demoHost demoDaemon ''alice'' = SyncResponse True body"
      "body ''environment'' \<noteq> None"
    by blast
  with api10Get_untrusted [of demoDaemon "''alice''" demoShared demoHost _ _ True body]
  have "isTrustedClient demoDaemon ''alice''"
    by blast
  with u exact same b show ?thesis
    by blast
qed

text \<open>
  Claim C9.  When \<^verbatim>\<open>api10Get\<close> answers a trusted caller with a body, the body's
  \<^verbatim>\<open>config\<close> has the keys of the server configuration, with the boolean true at
  \<^verbatim>\<open>core.trust_password\<close> and the stored string at every other key.  Two server
  configurations with the same keys that agree everywhere but at
  \<^verbatim>\<open>core.trust_password\<close> get the same response.
\<close>

theorem api10Get_trust_password:
  "(isTrustedClient d r \<and> ConfigValuesGet d = Inr es \<and> traverses es m \<and>
    api10Get sh h d r = SyncResponse ok body \<longrightarrow>
      (\<exists>config. body ''config'' = Some (JObject config) \<and>
         (\<forall>key. config key =
            (case m key of
               None \<Rightarrow> None
             | Some v \<Rightarrow>
                 Some (if key = ''core.trust_password'' then JBool True else JString v))))) \<and>
   (traverses es m \<and> traverses es' m' \<and> dom m' = dom m \<and>
    (\<forall>key. key \<noteq> ''core.trust_password'' \<longrightarrow> m' key = m key) \<longrightarrow>
      api10Get sh h (d\<lparr>ConfigValuesGet := Inr es'\<rparr>) r =
      api10Get sh h (d\<lparr>ConfigValuesGet := Inr es\<rparr>) r)"
proof (intro conjI impI)
  assume a: "isTrustedClient d r \<and> ConfigValuesGet d = Inr es \<and> traverses es m \<and>
    api10Get sh h d r = SyncResponse ok body"
  then have "body ''config'' = Some (JObject (rangeServerConfig es Map.empty))"
    using api10Get_trusted_config [of d r sh h ok body] by auto
  moreover from a have "rangeServerConfig es Map.empty key =
      (case m key of
         None \<Rightarrow> None
       | Some v \<Rightarrow> Some (if key = ''core.trust_password'' then JBool True else JString v))"
    for key
    by (simp add: traverses_def rangeServerConfig_eq)
  ultimately show "\<exists>config. body ''config'' = Some (JObject config) \<and>
         (\<forall>key. config key =
            (case m key of
               None \<Rightarrow> None
             | Some v \<Rightarrow>
                 Some (if key = ''core.trust_password'' then JBool True else JString v)))"
    by blast
next
  assume a: "traverses es m \<and> traverses es' m' \<and> dom m' = dom m \<and>
    (\<forall>key. key \<noteq> ''core.trust_password'' \<longrightarrow> m' key = m key)"
  have "rangeServerConfig es' Map.empty key = rangeServerConfig es Map.empty key" for key
  proof (cases "key = ''core.trust_password''")
    case True
    from a have "(m' key = None) = (m key = None)"
      by (metis domIff)
    with a show ?thesis
      by (auto simp: traverses_def rangeServerConfig_eq split: option.splits)
  next
    case False
    with a show ?thesis
      by (auto simp: traverses_def rangeServerConfig_eq split: option.splits)
  qed
  then have "rangeServerConfig es' Map.empty = rangeServerConfig es Map.empty"
    by (rule ext)
  then show "api10Get sh h (d\<lparr>ConfigValuesGet := Inr es'\<rparr>) r =
      api10Get sh h (d\<lparr>ConfigValuesGet := Inr es\<rparr>) r"
    by (rule api10Get_cong_config)
qed


text \<open>
  C9 at the example daemon, whose trust password is \<^verbatim>\<open>hunter2\<close>; the second
  configuration has the password \<^verbatim>\<open>swordfish\<close> and is traversed in another order.
\<close>

theorem api10Get_trust_password_witness:
  "isTrustedClient demoDaemon ''alice'' \<and>
   ConfigValuesGet demoDaemon = Inr demoConfig \<and>
   traverses demoConfig (map_of demoConfig) \<and>
   (\<exists>body. api10Get demoShared demoHost demoDaemon ''alice'' = SyncResponse True body \<and>
      (\<exists>config. body ''config'' = Some (JObject config) \<and>
         config ''core.trust_password'' = Some (JBool True) \<and>
         config ''core.https_address'' = Some (JString ''[::]:8443'') \<and>
         config ''core.proxy'' = None)) \<and>
   api10Get demoShared demoHost
     (demoDaemon\<lparr>ConfigValuesGet :=
        Inr [(''core.https_address'', ''[::]:8443''), (''core.trust_password'', ''swordfish'')]\<rparr>)
     ''alice'' =
   api10Get demoShared demoHost (demoDaemon\<lparr>ConfigValuesGet := Inr demoConfig\<rparr>) ''alice''"
proof -
  let ?es' = "[(''core.https_address'', ''[::]:8443''), (''core.trust_password'', ''swordfish'')]"
  have tr: "isTrustedClient demoDaemon ''alice''"
    by (simp add: demoDaemon_def)
  have cfg: "ConfigValuesGet demoDaemon = Inr demoConfig"
    by (simp add: demoDaemon_def)
  have t0: "traverses demoConfig (map_of demoConfig)"
    by (simp add: traverses_def demoConfig_def)
  have t1: "traverses ?es' (map_of ?es')"
    by (simp add: traverses_def)
  have dom_eq: "dom (map_of ?es') = dom (map_of demoConfig)"
    by (auto simp: demoConfig_def)
  have other: "\<forall>key. key \<noteq> ''core.trust_password'' \<longrightarrow>
      map_of ?es' key = map_of demoConfig key"
    by (simp add: demoConfig_def)
  have "\<exists>body. api10Get demoShared demoHost demoDaemon ''alice'' = SyncResponse True body"
    by (simp add: api10Get_def Let_def demoDaemon_def demoHost_def)
  then obtain body where
    b: "api10Get demoShared demoHost demoDaemon ''alice'' = SyncResponse True body"
    by blast
  note t = api10Get_trust_password
    [of demoDaemon "''alice''" demoConfig "map_of demoConfig" demoShared demoHost True body
        ?es' "map_of ?es'"]
  from t tr cfg t0 b obtain config where
    c: "body ''config'' = Some (JObject config)"
      "\<forall>key. config key =
         (case map_of demoConfig key of
            None \<Rightarrow> None
          | Some v \<Rightarrow> Some (if key = ''core.trust_password'' then JBool True else JString v))"
    by blast
  from c(2) have vals: "config ''core.trust_password'' = Some (JBool True)"
      "config ''core.https_address'' = Some (JString ''[::]:8443'')"
      "config ''core.proxy'' = None"
    by (simp_all add: demoConfig_def)
  from t t0 t1 dom_eq other have same: "api10Get demoShared demoHost
     (demoDaemon\<lparr>ConfigValuesGet := Inr ?es'\<rparr>) ''alice'' =
     api10Get demoShared demoHost (demoDaemon\<lparr>ConfigValuesGet := Inr demoConfig\<rparr>) ''alice''"
    by blast
  from tr cfg t0 b c(1) vals same show ?thesis
    by blast
qed

section \<open>Properties of the operation lifecycle\<close>

lemma find_distinct_iff:
  "distinct (map op_id xs) \<Longrightarrow>
   (find (\<lambda>op. op_id op = i) xs = Some op) = (op \<in> set xs \<and> op_id op = i)"
  by (induction xs) auto

lemma find_op_iff:
  "fresh_ids e \<Longrightarrow> (find_op i e = Some op) = (op \<in> set (registry e) \<and> op_id op = i)"
  by (simp add: find_op_def fresh_ids_def find_distinct_iff)

lemma find_op_None_iff: "(find_op i e = None) = (i \<notin> op_id ` set (registry e))"
  by (auto simp: find_op_def find_None_iff)

lemma registry_discard_secrets [simp]: "registry (discard_secrets j e) = registry e"
  by (simp add: discard_secrets_def)

lemma nextId_discard_secrets [simp]: "nextId (discard_secrets j e) = nextId e"
  by (simp add: discard_secrets_def)

lemma nextId_update_op [simp]: "nextId (update_op now j f e) = nextId e"
  by (simp add: update_op_def)

lemma ids_update_op:
  assumes "\<And>op. op_id (f op) = op_id op"
  shows "map op_id (registry (update_op now j f e)) = map op_id (registry e)"
  by (simp add: update_op_def assms)

lemma fresh_ids_update_op:
  assumes "\<And>op. op_id (f op) = op_id op" and "fresh_ids e"
  shows "fresh_ids (update_op now j f e)"
  using assms(2) unfolding fresh_ids_def ids_update_op [of f, OF assms(1)] by simp

lemma fresh_ids_discard_secrets [simp]: "fresh_ids (discard_secrets j e) = fresh_ids e"
  by (simp add: fresh_ids_def)

lemma fresh_ids_exec: "fresh_ids e \<Longrightarrow> fresh_ids (exec a e)"
proof (cases a)
  case (ACreate now res c v)
  assume "fresh_ids e"
  with ACreate show ?thesis
    by (cases v) (auto simp: Create_def Let_def fresh_ids_def less_Suc_eq)
next
  case (AStart now j)
  assume "fresh_ids e"
  with AStart show ?thesis
    by (cases "find_op j e") (auto simp: Start_def fresh_ids_update_op)
next
  case (AWorkDone now j outcome)
  assume "fresh_ids e"
  with AWorkDone show ?thesis
    by (cases "find_op j e")
       (auto simp: WorkDone_def fresh_ids_update_op split: work_outcome.splits option.splits)
next
  case (ACancel now j reaction)
  assume "fresh_ids e"
  with ACancel show ?thesis
    by (cases "find_op j e")
       (auto simp: Cancel_def fresh_ids_update_op split: cancel_reaction.splits)
next
  case (ADelete j)
  assume "fresh_ids e"
  with ADelete show ?thesis
    by (cases "find_op j e") (auto simp: Delete_def fresh_ids_def distinct_map_filter)
next
  case (ASweep now)
  assume "fresh_ids e"
  with ASweep show ?thesis
    by (auto simp: Sweep_def fresh_ids_def distinct_map_filter)
next
  case (ARegisterSecret j tokens)
  assume "fresh_ids e"
  with ARegisterSecret show ?thesis
    by (auto simp: RegisterSecret_def Let_def fresh_ids_def)
next
  case (AUpgrade tok)
  assume "fresh_ids e"
  with AUpgrade show ?thesis
    by (auto simp: Upgrade_def fresh_ids_def split: option.splits prod.splits)
qed

lemma nextId_exec: "nextId e \<le> nextId (exec a e)"
proof (cases a)
  case (ACreate now res c v)
  then show ?thesis
    by (cases v) (auto simp: Create_def Let_def)
next
  case (AStart now j)
  then show ?thesis
    by (cases "find_op j e") (auto simp: Start_def)
next
  case (AWorkDone now j outcome)
  then show ?thesis
    by (cases "find_op j e")
       (auto simp: WorkDone_def split: work_outcome.splits option.splits)
next
  case (ACancel now j reaction)
  then show ?thesis
    by (cases "find_op j e") (auto simp: Cancel_def split: cancel_reaction.splits)
next
  case (ADelete j)
  then show ?thesis
    by (cases "find_op j e") (auto simp: Delete_def)
next
  case (ASweep now)
  then show ?thesis
    by (auto simp: Sweep_def)
next
  case (ARegisterSecret j tokens)
  then show ?thesis
    by (auto simp: RegisterSecret_def Let_def)
next
  case (AUpgrade tok)
  then show ?thesis
    by (auto simp: Upgrade_def split: option.splits prod.splits)
qed


lemma find_op_update_op:
  assumes "\<And>op. op_id (f op) = op_id op"
  shows "find_op i (update_op now j f e) =
         (if i = j then map_option (\<lambda>op. (f op)\<lparr>updatedAt := now\<rparr>) (find_op i e)
          else find_op i e)"
proof -
  have "find (\<lambda>op. op_id op = i)
          (map (\<lambda>op. if op_id op = j then (f op)\<lparr>updatedAt := now\<rparr> else op) xs) =
        (if i = j then map_option (\<lambda>op. (f op)\<lparr>updatedAt := now\<rparr>) (find (\<lambda>op. op_id op = i) xs)
         else find (\<lambda>op. op_id op = i) xs)" for xs
    by (induction xs) (auto simp: assms)
  then show ?thesis
    by (simp add: find_op_def update_op_def)
qed

lemma find_op_discard_secrets [simp]: "find_op i (discard_secrets j e) = find_op i e"
  by (simp add: find_op_def)

lemma find_filter_other:
  "find (\<lambda>op. op_id op = i) (filter (\<lambda>op. op_id op \<noteq> j) xs) =
   (if i = j then None else find (\<lambda>op. op_id op = i) xs)"
  by (induction xs) auto

lemma find_append_new:
  "find P (xs @ [x]) =
   (case find P xs of None \<Rightarrow> (if P x then Some x else None) | Some y \<Rightarrow> Some y)"
  by (induction xs) auto

lemma same_record:
  assumes "fresh_ids e" and "op \<in> set (registry e)" and "op' \<in> set (registry e)"
    and "op_id op' = op_id op"
  shows "op' = op"
proof -
  from assms(1) have "inj_on op_id (set (registry e))"
    by (simp add: fresh_ids_def distinct_map)
  with assms(2-4) show ?thesis
    by (auto dest: inj_onD)
qed

lemma exec_status:
  assumes "fresh_ids e" and "find_op i e = Some op" and "find_op i (exec a e) = Some op'"
  shows "advance (status op) (status op')"
proof (cases a)
  case (ACreate now res c v)
  with assms(2,3) show ?thesis
    by (cases v) (auto simp: Create_def Let_def find_op_def find_append_new advance_def)
next
  case (AStart now j)
  with assms(2,3) show ?thesis
    by (cases "find_op j e")
       (auto simp: Start_def find_op_update_op advance_def terminal_def split: if_splits)
next
  case (AWorkDone now j outcome)
  with assms(2,3) show ?thesis
    by (cases "find_op j e")
       (auto simp: WorkDone_def find_op_update_op advance_def terminal_def
             split: if_splits work_outcome.splits option.splits)
next
  case (ACancel now j reaction)
  with assms(2,3) show ?thesis
    by (cases "find_op j e")
       (auto simp: Cancel_def find_op_update_op advance_def terminal_def
             split: if_splits cancel_reaction.splits)
next
  case (ADelete j)
  with assms(2,3) show ?thesis
    by (cases "find_op j e")
       (auto simp: Delete_def find_op_def find_filter_other advance_def split: if_splits)
next
  case (ASweep now)
  from assms(1) have "fresh_ids (exec a e)"
    by (rule fresh_ids_exec)
  with assms have "op \<in> set (registry e)" "op_id op = i"
    "op' \<in> set (registry (exec a e))" "op_id op' = i"
    by (simp_all add: find_op_iff)
  with ASweep have "op' \<in> set (registry e)"
    by (simp add: Sweep_def)
  with assms(1) \<open>op \<in> set (registry e)\<close> \<open>op_id op = i\<close> \<open>op_id op' = i\<close>
  have "op' = op"
    by (simp add: same_record)
  then show ?thesis
    by (simp add: advance_def)
next
  case (ARegisterSecret j tokens)
  with assms(2,3) show ?thesis
    by (auto simp: RegisterSecret_def Let_def find_op_def advance_def)
next
  case (AUpgrade tok)
  with assms(2,3) show ?thesis
    by (auto simp: Upgrade_def find_op_def advance_def split: option.splits if_splits prod.splits)
qed

lemma exec_gone:
  assumes "find_op i e = None" and "i < nextId e"
  shows "find_op i (exec a e) = None"
proof (cases a)
  case (ACreate now res c v)
  with assms show ?thesis
    by (cases v) (auto simp: Create_def Let_def find_op_def find_append_new)
next
  case (AStart now j)
  with assms show ?thesis
    by (cases "find_op j e") (auto simp: Start_def find_op_update_op)
next
  case (AWorkDone now j outcome)
  with assms show ?thesis
    by (cases "find_op j e")
       (auto simp: WorkDone_def find_op_update_op split: work_outcome.splits option.splits)
next
  case (ACancel now j reaction)
  with assms show ?thesis
    by (cases "find_op j e")
       (auto simp: Cancel_def find_op_update_op split: cancel_reaction.splits)
next
  case (ADelete j)
  with assms show ?thesis
    by (cases "find_op j e") (auto simp: Delete_def find_op_def find_filter_other)
next
  case (ASweep now)
  with assms show ?thesis
    by (auto simp: Sweep_def find_op_None_iff)
next
  case (ARegisterSecret j tokens)
  with assms show ?thesis
    by (auto simp: RegisterSecret_def Let_def find_op_def)
next
  case (AUpgrade tok)
  with assms show ?thesis
    by (auto simp: Upgrade_def find_op_def split: option.splits prod.splits)
qed

lemma trace_head: "trace acts e = e # tl (trace acts e)"
  by (cases acts) simp_all

lemma history_gone:
  "find_op i e = None \<Longrightarrow> i < nextId e \<Longrightarrow> status_history i (trace acts e) = []"
proof (induction acts arbitrary: e)
  case Nil
  then show ?case by simp
next
  case (Cons a acts)
  from Cons.prems have "find_op i (exec a e) = None"
    by (rule exec_gone)
  moreover from Cons.prems(2) have "i < nextId (exec a e)"
    using nextId_exec [of e a] by simp
  ultimately have "status_history i (trace acts (exec a e)) = []"
    by (rule Cons.IH)
  with Cons.prems(1) show ?case by simp
qed

lemma history_advances:
  "fresh_ids e \<Longrightarrow> successively advance (status_history i (trace acts e))"
proof (induction acts arbitrary: e)
  case Nil
  then show ?case by (simp split: option.splits)
next
  case (Cons a acts)
  let ?e' = "exec a e"
  let ?rest = "status_history i (trace acts ?e')"
  from Cons.prems have fresh': "fresh_ids ?e'"
    by (rule fresh_ids_exec)
  then have IH: "successively advance ?rest"
    by (rule Cons.IH)
  show ?case
  proof (cases "find_op i e")
    case None
    with IH show ?thesis by simp
  next
    case (Some op)
    with Cons.prems have below: "i < nextId e"
      by (auto simp: find_op_iff fresh_ids_def)
    show ?thesis
    proof (cases "find_op i ?e'")
      case None
      with below have "?rest = []"
        using nextId_exec [of e a] by (intro history_gone) simp_all
      with Some show ?thesis by simp
    next
      case (Some op')
      with Cons.prems \<open>find_op i e = Some op\<close> have "advance (status op) (status op')"
        by (intro exec_status)
      moreover from Some have "?rest = status op' # status_history i (tl (trace acts ?e'))"
        by (subst trace_head) simp
      ultimately show ?thesis
        using IH \<open>find_op i e = Some op\<close> by simp
    qed
  qed
qed

lemma lifecycle_from:
  "successively advance (s # h) \<Longrightarrow>
   \<exists>t. terminal t \<and> (terminal s \<longrightarrow> t = s) \<and> subseq (remdups_adj (s # h)) (remaining s t)"
proof (induction h arbitrary: s)
  case Nil
  show ?case
    by (cases s) (auto simp: terminal_def)
next
  case (Cons s' h)
  from Cons.prems have adv: "advance s s'" and rest: "successively advance (s' # h)"
    by simp_all
  from Cons.IH [OF rest] obtain t where
    t: "terminal t" "terminal s' \<longrightarrow> t = s'" "subseq (remdups_adj (s' # h)) (remaining s' t)"
    by blast
  show ?case
  proof (cases "s' = s")
    case True
    with t show ?thesis by auto
  next
    case False
    with adv have "(s = Pending \<and> s' \<noteq> Pending) \<or> (s = Running \<and> terminal s')"
      by (simp add: advance_def)
    with t False show ?thesis
      by (cases s; cases s') (auto simp: terminal_def intro!: exI [of _ t])
  qed
qed

lemma lifecycle:
  assumes "successively advance h"
  shows "\<exists>t. terminal t \<and> subseq (remdups_adj h) [Pending, Running, t]"
proof (cases h)
  case Nil
  then show ?thesis
    by (auto simp: terminal_def)
next
  case (Cons s h')
  with assms obtain t where
    t: "terminal t" "terminal s \<longrightarrow> t = s" "subseq (remdups_adj h) (remaining s t)"
    using lifecycle_from [of s h'] by blast
  have "subseq (remaining s t) [Pending, Running, t]"
    using t(1,2) by (cases s) (auto simp: terminal_def)
  with t(3) have "subseq (remdups_adj h) [Pending, Running, t]"
    by (rule subseq_order.trans)
  with t(1) show ?thesis by blast
qed

lemma fresh_ids_newEngine: "fresh_ids (newEngine w)"
  by (simp add: fresh_ids_def newEngine_def)

lemma fresh_ids_run: "fresh_ids e \<Longrightarrow> fresh_ids (run acts e)"
  by (induction acts arbitrary: e) (simp_all add: fresh_ids_exec)

lemma terminal_stays:
  assumes "fresh_ids e" and "find_op i e = Some op" and "terminal (status op)"
    and "find_op i (exec a e) = Some op'"
  shows "status op' = status op"
  using exec_status [OF assms(1,2,4)] assms(3)
  by (auto simp: advance_def terminal_def)

lemma run_append: "run (acts @ later) e = run later (run acts e)"
  by (induction acts arbitrary: e) simp_all

lemma run_gone:
  "find_op i e = None \<Longrightarrow> i < nextId e \<Longrightarrow> find_op i (run acts e) = None"
proof (induction acts arbitrary: e)
  case Nil
  then show ?case by simp
next
  case (Cons a acts)
  from Cons.prems have "find_op i (exec a e) = None"
    by (rule exec_gone)
  moreover from Cons.prems(2) have "i < nextId (exec a e)"
    using nextId_exec [of e a] by simp
  ultimately show ?case
    by (simp add: Cons.IH)
qed

lemma terminal_forever:
  "fresh_ids e \<Longrightarrow> find_op i e = Some op \<Longrightarrow> terminal (status op) \<Longrightarrow>
   find_op i (run later e) = Some op' \<Longrightarrow> status op' = status op"
proof (induction later arbitrary: e op)
  case Nil
  then show ?case by simp
next
  case (Cons a later)
  from Cons.prems(1) have fresh': "fresh_ids (exec a e)"
    by (rule fresh_ids_exec)
  from Cons.prems(1,2) have below: "i < nextId (exec a e)"
    using nextId_exec [of e a] by (auto simp: find_op_iff fresh_ids_def)
  show ?case
  proof (cases "find_op i (exec a e)")
    case None
    with below have "find_op i (run later (exec a e)) = None"
      by (intro run_gone)
    with Cons.prems(4) show ?thesis by simp
  next
    case (Some op1)
    with Cons.prems have same: "status op1 = status op"
      by (intro terminal_stays [of e i op a op1])
    with Cons.prems(3) have "terminal (status op1)" by simp
    with fresh' Some Cons.prems(4) have "status op' = status op1"
      by (intro Cons.IH [of "exec a e" op1]) simp_all
    with same show ?thesis by simp
  qed
qed

text \<open>
  Claim C1.  Along any run of the engine from its start, the statuses an operation is seen
  in, repetitions dropped, form a subsequence of \<^verbatim>\<open>Pending\<close>,
  \<^verbatim>\<open>Running\<close> and one terminal status; and an operation that is terminal after
  some steps has the same status after any further steps, as long as it has a record.
\<close>

theorem status_lifecycle:
  "(\<exists>t. terminal t \<and>
      subseq (remdups_adj (status_history i (trace acts (newEngine w)))) [Pending, Running, t]) \<and>
   (find_op i (run acts (newEngine w)) = Some op \<and> terminal (status op) \<and>
    find_op i (run (acts @ later) (newEngine w)) = Some op' \<longrightarrow>
      status op' = status op)"
proof (intro conjI impI)
  have "successively advance (status_history i (trace acts (newEngine w)))"
    by (intro history_advances fresh_ids_newEngine)
  then show "\<exists>t. terminal t \<and>
      subseq (remdups_adj (status_history i (trace acts (newEngine w)))) [Pending, Running, t]"
    by (rule lifecycle)
next
  assume a: "find_op i (run acts (newEngine w)) = Some op \<and> terminal (status op) \<and>
    find_op i (run (acts @ later) (newEngine w)) = Some op'"
  have "fresh_ids (run acts (newEngine w))"
    by (intro fresh_ids_run fresh_ids_newEngine)
  with a show "status op' = status op"
    by (intro terminal_forever [of "run acts (newEngine w)" i op later op'])
       (simp_all add: run_append)
qed

text \<open>
  C1 on a run that creates, starts and completes operation 0 and then tries to cancel and
  to start it again.
\<close>

theorem status_lifecycle_witness:
  "status_history 0 (trace (demoRun @ demoLater) (newEngine 60)) =
     [Pending, Running, Success, Success, Success] \<and>
   (\<exists>t. terminal t \<and> subseq [Pending, Running, Success] [Pending, Running, t]) \<and>
   (\<exists>op. find_op 0 (run demoRun (newEngine 60)) = Some op \<and> status op = Success) \<and>
   terminal Success \<and>
   (\<exists>op'. find_op 0 (run (demoRun @ demoLater) (newEngine 60)) = Some op' \<and>
      status op' = Success)"
proof -
  note t = status_lifecycle [of 0 "demoRun @ demoLater" 60]
  have h: "status_history 0 (trace (demoRun @ demoLater) (newEngine 60)) =
     [Pending, Running, Success, Success, Success]"
    by (simp add: demoRun_def demoLater_def engine_defs)
  from t have "\<exists>t. terminal t \<and>
      subseq (remdups_adj (status_history 0 (trace (demoRun @ demoLater) (newEngine 60))))
        [Pending, Running, t]"
    by blast
  then have sub: "\<exists>t. terminal t \<and> subseq [Pending, Running, Success] [Pending, Running, t]"
    unfolding h by simp
  have "\<exists>op. find_op 0 (run demoRun (newEngine 60)) = Some op \<and> status op = Success"
    by (simp add: demoRun_def engine_defs)
  then obtain op where
    op: "find_op 0 (run demoRun (newEngine 60)) = Some op" "status op = Success"
    by blast
  have "\<exists>op'. find_op 0 (run (demoRun @ demoLater) (newEngine 60)) = Some op'"
    by (simp add: demoRun_def demoLater_def engine_defs)
  then obtain op' where
    op': "find_op 0 (run (demoRun @ demoLater) (newEngine 60)) = Some op'"
    by blast
  have fin: "terminal Success"
    by (simp add: terminal_def)
  from status_lifecycle [of 0 demoRun 60 op demoLater op'] op op' fin
  have "status op' = Success"
    by simp
  with h sub op op' fin show ?thesis
    by blast
qed

section \<open>Properties of the session bridge\<close>

lemma secrets_update_op [simp]: "secrets (update_op now j f e) = secrets e"
  by (simp add: update_op_def)

lemma nextSecret_update_op [simp]: "nextSecret (update_op now j f e) = nextSecret e"
  by (simp add: update_op_def)

lemma secrets_discard_secrets:
  "secrets (discard_secrets j e) = filter (\<lambda>b. fst (fst b) \<noteq> j) (secrets e)"
  by (simp add: discard_secrets_def)

lemma nextSecret_discard_secrets [simp]: "nextSecret (discard_secrets j e) = nextSecret e"
  by (simp add: discard_secrets_def)

text \<open>Every step but a registration only removes bindings and mints nothing.\<close>

lemma exec_filters_secrets:
  assumes "\<And>i streamNames. a \<noteq> ARegisterSecret i streamNames"
  shows "\<exists>P. secrets (exec a e) = filter P (secrets e) \<and> nextSecret (exec a e) = nextSecret e"
proof -
  have keep: "secrets e = filter (\<lambda>_. True) (secrets e)"
    by simp
  show ?thesis
  proof (cases a)
    case (ACreate now res c v)
    then have "secrets (exec a e) = secrets e \<and> nextSecret (exec a e) = nextSecret e"
      by (cases v) (simp_all add: Create_def Let_def)
    with keep show ?thesis by metis
  next
    case (AStart now j)
    then have "secrets (exec a e) = secrets e \<and> nextSecret (exec a e) = nextSecret e"
      by (cases "find_op j e") (simp_all add: Start_def)
    with keep show ?thesis by metis
  next
    case (AWorkDone now j outcome)
    then have "(secrets (exec a e) = secrets e \<or>
        secrets (exec a e) = filter (\<lambda>b. fst (fst b) \<noteq> j) (secrets e)) \<and>
        nextSecret (exec a e) = nextSecret e"
      by (cases "find_op j e")
         (auto simp: WorkDone_def secrets_discard_secrets
               split: work_outcome.splits option.splits)
    with keep show ?thesis by metis
  next
    case (ACancel now j reaction)
    then have "(secrets (exec a e) = secrets e \<or>
        secrets (exec a e) = filter (\<lambda>b. fst (fst b) \<noteq> j) (secrets e)) \<and>
        nextSecret (exec a e) = nextSecret e"
      by (cases "find_op j e")
         (auto simp: Cancel_def secrets_discard_secrets split: cancel_reaction.splits)
    with keep show ?thesis by metis
  next
    case (ADelete j)
    then have "(secrets (exec a e) = secrets e \<or>
        secrets (exec a e) = filter (\<lambda>b. fst (fst b) \<noteq> j) (secrets e)) \<and>
        nextSecret (exec a e) = nextSecret e"
      by (cases "find_op j e") (auto simp: Delete_def secrets_discard_secrets)
    with keep show ?thesis by metis
  next
    case (ASweep now)
    then have "secrets (exec a e) = secrets e \<and> nextSecret (exec a e) = nextSecret e"
      by (simp add: Sweep_def)
    with keep show ?thesis by metis
  next
    case (ARegisterSecret j streamNames)
    with assms [of j streamNames] show ?thesis by simp
  next
    case (AUpgrade tok)
    then have "(secrets (exec a e) = secrets e \<or>
        (\<exists>j. secrets (exec a e) = filter (\<lambda>b. fst b \<noteq> (j, tok)) (secrets e))) \<and>
        nextSecret (exec a e) = nextSecret e"
      by (auto simp: Upgrade_def split: option.splits prod.splits)
    with keep show ?thesis by metis
  qed
qed

lemma minted_tokens:
  "map (\<lambda>b. snd (fst b))
     (map (\<lambda>(stream, tok). ((i, tok), stream)) (zip streamNames [n..<n + length streamNames])) =
   [n..<n + length streamNames]"
proof -
  have swap: "(\<lambda>b. snd (fst b)) \<circ> (\<lambda>(stream, tok). ((i, tok), stream)) = snd"
    by (auto simp: fun_eq_iff)
  show ?thesis
    by (simp add: swap)
qed

lemma fresh_append:
  fixes ts :: "nat list"
  assumes "distinct ts" and "\<forall>t \<in> set ts. t < n"
  shows "distinct (ts @ [n..<n + k]) \<and> (\<forall>t \<in> set (ts @ [n..<n + k]). t < n + k)"
  using assms by fastforce

lemma secrets_RegisterSecret:
  "map (\<lambda>b. snd (fst b)) (secrets (snd (RegisterSecret i streamNames e))) =
     map (\<lambda>b. snd (fst b)) (secrets e) @ [nextSecret e..<nextSecret e + length streamNames]"
proof -
  have "secrets (snd (RegisterSecret i streamNames e)) =
      secrets e @
      map (\<lambda>(stream, tok). ((i, tok), stream))
        (zip streamNames [nextSecret e..<nextSecret e + length streamNames])"
    by (simp add: RegisterSecret_def Let_def)
  then show ?thesis
    by (simp only: map_append minted_tokens)
qed

lemma nextSecret_RegisterSecret:
  "nextSecret (snd (RegisterSecret i streamNames e)) = nextSecret e + length streamNames"
  by (simp add: RegisterSecret_def Let_def)

lemma fresh_secrets_exec: "fresh_secrets e \<Longrightarrow> fresh_secrets (exec a e)"
proof (cases "\<exists>i streamNames. a = ARegisterSecret i streamNames")
  case True
  assume fresh: "fresh_secrets e"
  from True obtain i streamNames where
    step: "exec a e = snd (RegisterSecret i streamNames e)"
    by auto
  from fresh show ?thesis
    unfolding fresh_secrets_def step secrets_RegisterSecret nextSecret_RegisterSecret
    by (intro fresh_append) simp_all
next
  case False
  assume fresh: "fresh_secrets e"
  from False obtain P where
    "secrets (exec a e) = filter P (secrets e)" "nextSecret (exec a e) = nextSecret e"
    using exec_filters_secrets [of a e] by auto
  with fresh show ?thesis
    by (auto simp: fresh_secrets_def distinct_map_filter)
qed

lemma fresh_secrets_run: "fresh_secrets e \<Longrightarrow> fresh_secrets (run acts e)"
  by (induction acts arbitrary: e) (simp_all add: fresh_secrets_exec)

lemma fresh_secrets_newEngine: "fresh_secrets (newEngine w)"
  by (simp add: fresh_secrets_def newEngine_def)

lemma exec_spent:
  assumes "bindings_of tok e = []" and "tok < nextSecret e"
  shows "bindings_of tok (exec a e) = [] \<and> tok < nextSecret (exec a e)"
proof (cases "\<exists>i streamNames. a = ARegisterSecret i streamNames")
  case True
  then obtain i streamNames where a: "a = ARegisterSecret i streamNames"
    by blast
  from assms(1) have "tok \<notin> set (map (\<lambda>b. snd (fst b)) (secrets e))"
    by (auto simp: bindings_of_def filter_empty_conv)
  with assms(2) have "tok \<notin> set (map (\<lambda>b. snd (fst b)) (secrets (exec a e)))"
    unfolding a by (simp add: secrets_RegisterSecret)
  then have "bindings_of tok (exec a e) = []"
    by (auto simp: bindings_of_def filter_empty_conv)
  with assms(2) show ?thesis
    by (simp add: a nextSecret_RegisterSecret)
next
  case False
  then obtain P where
    "secrets (exec a e) = filter P (secrets e)" "nextSecret (exec a e) = nextSecret e"
    using exec_filters_secrets [of a e] by auto
  with assms show ?thesis
    by (auto simp: bindings_of_def filter_empty_conv)
qed

lemma run_spent:
  "bindings_of tok e = [] \<Longrightarrow> tok < nextSecret e \<Longrightarrow> bindings_of tok (run acts e) = []"
proof (induction acts arbitrary: e)
  case Nil
  then show ?case by simp
next
  case (Cons a acts)
  from exec_spent [OF Cons.prems, of a] show ?case
    by (simp add: Cons.IH)
qed

lemma Upgrade_unbound: "bindings_of tok e = [] \<Longrightarrow> Upgrade tok e = Inl InvalidSecret"
proof -
  assume "bindings_of tok e = []"
  then have "find (\<lambda>b. snd (fst b) = tok) (secrets e) = None"
    by (auto simp: bindings_of_def filter_empty_conv find_None_iff)
  then show ?thesis
    by (simp add: Upgrade_def)
qed

lemma find_SomeD: "find P xs = Some x \<Longrightarrow> P x \<and> x \<in> set xs"
  by (induction xs) (auto split: if_splits)

lemma Upgrade_found:
  assumes "Upgrade tok e = Inr (bound, e')"
  shows "\<exists>i stream. ((i, tok), stream) \<in> set (secrets e) \<and> bound = (i, stream) \<and>
           e' = e\<lparr>secrets := filter (\<lambda>b. fst b \<noteq> (i, tok)) (secrets e)\<rparr>"
proof -
  from assms obtain i s stream where
    found: "find (\<lambda>b. snd (fst b) = tok) (secrets e) = Some ((i, s), stream)"
    by (auto simp: Upgrade_def split: option.splits prod.splits)
  then have "((i, s), stream) \<in> set (secrets e)" and "s = tok"
    by (auto dest: find_SomeD)
  moreover from assms found have "bound = (i, stream)"
    "e' = e\<lparr>secrets := filter (\<lambda>b. fst b \<noteq> (i, tok)) (secrets e)\<rparr>"
    by (auto simp: Upgrade_def split: option.splits if_splits)
  ultimately show ?thesis
    by blast
qed

lemma Upgrade_consumes:
  assumes "fresh_secrets e" and "Upgrade tok e = Inr (bound, e')"
  shows "bindings_of tok e' = [] \<and> tok < nextSecret e'"
proof -
  from Upgrade_found [OF assms(2)] obtain i stream where
    b: "((i, tok), stream) \<in> set (secrets e)" and
    e': "e' = e\<lparr>secrets := filter (\<lambda>b. fst b \<noteq> (i, tok)) (secrets e)\<rparr>"
    by blast
  from assms(1) have inj: "inj_on (\<lambda>b. snd (fst b)) (set (secrets e))"
    by (simp add: fresh_secrets_def distinct_map)
  have "fst y = (i, tok)" if "y \<in> set (secrets e)" and "snd (fst y) = tok" for y
  proof -
    from that(2) have "snd (fst y) = snd (fst ((i, tok), stream))"
      by simp
    with inj have "y = ((i, tok), stream)"
      using that(1) b by (rule inj_onD)
    then show ?thesis by simp
  qed
  then have "bindings_of tok e' = []"
    unfolding bindings_of_def e' by (auto simp: filter_empty_conv)
  moreover from assms(1) b have "tok < nextSecret e"
    by (force simp: fresh_secrets_def)
  ultimately show ?thesis
    by (simp add: e')
qed

lemma Upgrade_keeps_others:
  assumes "Upgrade tok e = Inr (bound, e')" and "tok' \<noteq> tok"
  shows "bindings_of tok' e' = bindings_of tok' e"
proof -
  from Upgrade_found [OF assms(1)] obtain i where
    e': "e' = e\<lparr>secrets := filter (\<lambda>b. fst b \<noteq> (i, tok)) (secrets e)\<rparr>"
    by blast
  from assms(2) show ?thesis
    unfolding bindings_of_def e' by (auto intro: filter_cong)
qed

text \<open>
  Claim C3.  In any store the engine reaches from its start, after an
  \<^verbatim>\<open>Upgrade\<close> with a secret has succeeded, an \<^verbatim>\<open>Upgrade\<close> with the same
  secret fails with \<^verbatim>\<open>InvalidSecret\<close>, at once and after any further steps; the
  successful upgrade consumes that secret only, the bindings of every other secret stay.
\<close>

theorem secret_single_use:
  "Upgrade tok (run acts (newEngine w)) = Inr (bound, e') \<longrightarrow>
     Upgrade tok (run later e') = Inl InvalidSecret \<and>
     (\<forall>tok'. tok' \<noteq> tok \<longrightarrow>
        bindings_of tok' e' = bindings_of tok' (run acts (newEngine w)))"
proof (intro impI conjI allI)
  assume up: "Upgrade tok (run acts (newEngine w)) = Inr (bound, e')"
  have "fresh_secrets (run acts (newEngine w))"
    by (intro fresh_secrets_run fresh_secrets_newEngine)
  from Upgrade_consumes [OF this up] have "bindings_of tok (run later e') = []"
    by (intro run_spent) simp_all
  then show "Upgrade tok (run later e') = Inl InvalidSecret"
    by (rule Upgrade_unbound)
next
  fix tok'
  assume "Upgrade tok (run acts (newEngine w)) = Inr (bound, e')" and "tok' \<noteq> tok"
  then show "bindings_of tok' e' = bindings_of tok' (run acts (newEngine w))"
    by (rule Upgrade_keeps_others)
qed

text \<open>
  C3 on a running operation with secrets for the streams \<^verbatim>\<open>0\<close> and
  \<^verbatim>\<open>1\<close>: the secret of stream \<^verbatim>\<open>1\<close> upgrades once and is refused
  afterwards, also after a further registration, the use of the other secret and a panic of
  the work function; the secret of stream \<^verbatim>\<open>0\<close> is still good after the first
  upgrade.
\<close>

theorem secret_single_use_witness:
  "(\<exists>e'. Upgrade 1 (run demoBridge (newEngine 60)) = Inr ((0, ''1''), e') \<and>
      Upgrade 1 e' = Inl InvalidSecret \<and>
      Upgrade 1 (run demoSession e') = Inl InvalidSecret \<and>
      bindings_of 0 e' = [((0, 0), ''0'')] \<and>
      (\<exists>e''. Upgrade 0 e' = Inr ((0, ''0''), e'')))"
proof -
  have "\<exists>e'. Upgrade 1 (run demoBridge (newEngine 60)) = Inr ((0, ''1''), e')"
    by (simp add: demoBridge_def engine_defs)
  then obtain e' where up: "Upgrade 1 (run demoBridge (newEngine 60)) = Inr ((0, ''1''), e')"
    by blast
  from secret_single_use [of 1 demoBridge 60 "(0, ''1'')" e' "[]"] up
  have again: "Upgrade 1 e' = Inl InvalidSecret"
    by simp
  from secret_single_use [of 1 demoBridge 60 "(0, ''1'')" e' demoSession] up
  have after: "Upgrade 1 (run demoSession e') = Inl InvalidSecret"
    by simp
  from secret_single_use [of 1 demoBridge 60 "(0, ''1'')" e' "[]"] up
  have "bindings_of 0 e' = bindings_of 0 (run demoBridge (newEngine 60))"
    by simp
  also have "\<dots> = [((0, 0), ''0'')]"
    by (simp add: bindings_of_def demoBridge_def engine_defs)
  finally have other: "bindings_of 0 e' = [((0, 0), ''0'')]" .
  from up have e': "e' = (run demoBridge (newEngine 60))
      \<lparr>secrets := filter (\<lambda>b. fst b \<noteq> (0, 1)) (secrets (run demoBridge (newEngine 60)))\<rparr>"
    by (simp add: demoBridge_def engine_defs)
  have "\<exists>e''. Upgrade 0 e' = Inr ((0, ''0''), e'')"
    unfolding e' by (simp add: demoBridge_def engine_defs)
  with up again after other show ?thesis
    by blast
qed

end
